theory Spec2Isabelle
  imports Main
begin

section \<open>The credential pool (key-pool.js)\<close>

text \<open>
  \<^verbatim>\<open>KeyPoolManager.keys\<close> is a JavaScript \<^verbatim>\<open>Map\<close> from the API key (a string)
  to a mutable state object. A \<^verbatim>\<open>Map\<close> iterates in insertion order and holds each
  key once, so the pool is an association list in insertion order; \<open>wf_pool\<close> below
  records what \<^verbatim>\<open>loadKeys\<close> guarantees (no key twice, no falsy key).
  Timestamps are the integer milliseconds of \<^verbatim>\<open>Date.now()\<close>; the clock reading of
  each call is a parameter of the operation.
\<close>

datatype key_status = available | in_use | error

record key_state =
  status :: key_status
  user :: "string option"
  lastUsed :: int
  errorSince :: int

type_synonym key_pool = "(string \<times> key_state) list"

definition KEY_LOCK_DURATION :: int where
  "KEY_LOCK_DURATION = 2 * 60 * 1000"

definition KEY_ERROR_COOLDOWN :: int where
  "KEY_ERROR_COOLDOWN = 5 * 60 * 1000"

text \<open>\<^verbatim>\<open>this.keys.has(key)\<close>.\<close>

definition has :: "key_pool \<Rightarrow> string \<Rightarrow> bool" where
  "has keys key = (key \<in> set (map fst keys))"

text \<open>The state object every key starts with in \<^verbatim>\<open>loadKeys\<close>.\<close>

definition initial_state :: key_state where
  "initial_state = \<lparr>status = available, user = None, lastUsed = 0, errorSince = 0\<rparr>"

text \<open>
  The \<^verbatim>\<open>keys.forEach\<close> of \<^verbatim>\<open>loadKeys\<close>: a key that is truthy (for a string: not
  empty) and not yet present is appended to the map.
\<close>

fun loadKeys_forEach :: "string list \<Rightarrow> key_pool \<Rightarrow> key_pool" where
  "loadKeys_forEach [] keys = keys"
| "loadKeys_forEach (key # rest) keys =
     loadKeys_forEach rest
       (if key \<noteq> [] \<and> \<not> has keys key then keys @ [(key, initial_state)] else keys)"

definition loadKeys :: "string list \<Rightarrow> key_pool" where
  "loadKeys json_keys = loadKeys_forEach json_keys []"

text \<open>
  Step 1 of \<^verbatim>\<open>getKeyForUser\<close>: the first entry whose \<^verbatim>\<open>user\<close> is the caller and
  whose status is \<^verbatim>\<open>'in_use'\<close> gets \<^verbatim>\<open>lastUsed = now\<close> and its key is returned.
  \<open>None\<close> when the loop ends without returning.
\<close>

fun refresh_active :: "int \<Rightarrow> string \<Rightarrow> key_pool \<Rightarrow> (string \<times> key_pool) option" where
  "refresh_active now userId [] = None"
| "refresh_active now userId ((key, state) # rest) =
     (if user state = Some userId \<and> status state = in_use
      then Some (key, (key, state\<lparr>lastUsed := now\<rparr>) # rest)
      else (case refresh_active now userId rest of
              None \<Rightarrow> None
            | Some (found, rest') \<Rightarrow> Some (found, (key, state) # rest')))"

text \<open>The condition of step 2 on one entry (\<^verbatim>\<open>isStale\<close>, \<^verbatim>\<open>isErrorExpired\<close>).\<close>

definition claimable :: "int \<Rightarrow> key_state \<Rightarrow> bool" where
  "claimable now state =
     (let isStale = now - lastUsed state > KEY_LOCK_DURATION;
          isErrorExpired = now - errorSince state > KEY_ERROR_COOLDOWN
      in status state = available
         \<or> (status state = in_use \<and> isStale)
         \<or> (status state = error \<and> isErrorExpired))"

text \<open>Step 2: the key of the first entry that meets the condition (\<^verbatim>\<open>break\<close>).\<close>

fun find_available :: "int \<Rightarrow> key_pool \<Rightarrow> string option" where
  "find_available now [] = None"
| "find_available now ((key, state) # rest) =
     (if claimable now state then Some key else find_available now rest)"

text \<open>\<^verbatim>\<open>this.keys.get(key)\<close> followed by assignments to the state object's fields.\<close>

fun update_key :: "string \<Rightarrow> (key_state \<Rightarrow> key_state) \<Rightarrow> key_pool \<Rightarrow> key_pool" where
  "update_key k f [] = []"
| "update_key k f ((key, state) # rest) =
     (if key = k then (key, f state) # rest else (key, state) # update_key k f rest)"

text \<open>
  \<^verbatim>\<open>getKeyForUser(userId)\<close> at clock reading \<open>now\<close>: the returned key (\<open>None\<close> is
  \<^verbatim>\<open>null\<close>) and the pool afterwards. Step 3 tests \<^verbatim>\<open>if (availableKey)\<close>, which is
  false for \<^verbatim>\<open>null\<close> and for the empty string.
\<close>

definition getKeyForUser :: "int \<Rightarrow> string \<Rightarrow> key_pool \<Rightarrow> string option \<times> key_pool" where
  "getKeyForUser now userId keys =
     (case refresh_active now userId keys of
        Some (key, keys') \<Rightarrow> (Some key, keys')
      | None \<Rightarrow>
          (case find_available now keys of
             None \<Rightarrow> (None, keys)
           | Some availableKey \<Rightarrow>
               if availableKey \<noteq> []
               then (Some availableKey,
                     update_key availableKey
                       (\<lambda>state. state\<lparr>status := in_use, user := Some userId,
                                      lastUsed := now, errorSince := 0\<rparr>) keys)
               else (None, keys)))"

text \<open>\<^verbatim>\<open>reportError(apiKey)\<close> at clock reading \<open>now\<close>.\<close>

definition reportError :: "int \<Rightarrow> string \<Rightarrow> key_pool \<Rightarrow> key_pool" where
  "reportError now apiKey keys =
     (if has keys apiKey
      then update_key apiKey (\<lambda>state. state\<lparr>status := error, user := None, errorSince := now\<rparr>) keys
      else keys)"

text \<open>What \<^verbatim>\<open>loadKeys\<close> guarantees of the map: each key once, none of them falsy.\<close>

definition wf_pool :: "key_pool \<Rightarrow> bool" where
  "wf_pool keys = (distinct (map fst keys) \<and> [] \<notin> set (map fst keys))"

text \<open>
  Sequences of calls on the pool: each call with its clock reading. \<open>run\<close> is the pool
  after the calls, \<open>returned\<close> what the \<^verbatim>\<open>getKeyForUser\<close> calls among them returned.
\<close>

datatype pool_op = Acquire int string | ReportError int string

fun apply_op :: "pool_op \<Rightarrow> key_pool \<Rightarrow> string option \<times> key_pool" where
  "apply_op (Acquire now userId) keys = getKeyForUser now userId keys"
| "apply_op (ReportError now apiKey) keys = (None, reportError now apiKey keys)"

fun run :: "pool_op list \<Rightarrow> key_pool \<Rightarrow> key_pool" where
  "run [] keys = keys"
| "run (c # cs) keys = run cs (snd (apply_op c keys))"

fun returned :: "pool_op list \<Rightarrow> key_pool \<Rightarrow> string option list" where
  "returned [] keys = []"
| "returned (ReportError now apiKey # cs) keys = returned cs (reportError now apiKey keys)"
| "returned (Acquire now userId # cs) keys =
     fst (getKeyForUser now userId keys) # returned cs (snd (getKeyForUser now userId keys))"

text \<open>The keys a caller holds: entries that step 1 of \<^verbatim>\<open>getKeyForUser\<close> would match.\<close>

definition holders :: "string \<Rightarrow> key_pool \<Rightarrow> string list" where
  "holders userId keys =
     map fst (filter (\<lambda>(k, s). user s = Some userId \<and> status s = in_use) keys)"

text \<open>
  A call made while the key \<open>apiKey\<close>, reported at clock reading \<open>t\<close>, is still
  cooling down: a \<^verbatim>\<open>getKeyForUser\<close> at a reading \<open>now\<close> with
  \<open>now - t \<le> KEY_ERROR_COOLDOWN\<close>, or a \<^verbatim>\<open>reportError\<close> (one on \<open>apiKey\<close> itself
  not before \<open>t\<close>).
\<close>

fun within_cooldown :: "int \<Rightarrow> string \<Rightarrow> pool_op \<Rightarrow> bool" where
  "within_cooldown t apiKey (Acquire now userId) = (now - t \<le> KEY_ERROR_COOLDOWN)"
| "within_cooldown t apiKey (ReportError now k) = (k \<noteq> apiKey \<or> t \<le> now)"

text \<open>The entry of a key in quarantine since \<open>t\<close> or later.\<close>

definition cooling :: "int \<Rightarrow> string \<Rightarrow> key_pool \<Rightarrow> bool" where
  "cooling t apiKey keys =
     list_all (\<lambda>(k, s). k \<noteq> apiKey \<or> (status s = error \<and> user s = None \<and> t \<le> errorSince s))
       keys"

text \<open>The status of a key in the pool (\<open>None\<close>: no such key).\<close>

definition status_of :: "key_pool \<Rightarrow> string \<Rightarrow> key_status option" where
  "status_of keys k = map_option status (map_of keys k)"

text \<open>
  The discipline of the request handler (\<^verbatim>\<open>/api/process-image\<close> in index.js), which
  calls \<^verbatim>\<open>keyPool.reportError(apiKey)\<close> only with a key that
  \<^verbatim>\<open>keyPool.getKeyForUser\<close> has returned to it: in the sequence of calls, every
  \<^verbatim>\<open>reportError\<close> names a key that an earlier \<^verbatim>\<open>getKeyForUser\<close> of the sequence (or
  one before it, the keys \<open>given\<close>) returned.
\<close>

fun reports_follow_acquire :: "string list \<Rightarrow> pool_op list \<Rightarrow> key_pool \<Rightarrow> bool" where
  "reports_follow_acquire given [] keys = True"
| "reports_follow_acquire given (Acquire now userId # cs) keys =
     reports_follow_acquire
       (case fst (getKeyForUser now userId keys) of None \<Rightarrow> given | Some k \<Rightarrow> k # given)
       cs (snd (getKeyForUser now userId keys))"
| "reports_follow_acquire given (ReportError now apiKey # cs) keys =
     (apiKey \<in> set given \<and> reports_follow_acquire given cs (reportError now apiKey keys))"

section \<open>The session guard (db.js, index.js)\<close>

text \<open>
  The values the guard compares with \<^verbatim>\<open>!==\<close> are strings, \<^verbatim>\<open>null\<close> (the initial
  \<^verbatim>\<open>lastUsedIp\<close> and \<^verbatim>\<open>lastUsedUserAgent\<close> of \<^verbatim>\<open>createKey\<close>) or \<^verbatim>\<open>undefined\<close>
  (a header the request does not carry).
\<close>

datatype jsval = JNull | JUndefined | JString string

fun truthy :: "jsval \<Rightarrow> bool" where
  "truthy (JString s) = (s \<noteq> [])"
| "truthy JNull = False"
| "truthy JUndefined = False"

text \<open>\<^verbatim>\<open>a || b\<close>.\<close>

definition js_or :: "jsval \<Rightarrow> jsval \<Rightarrow> jsval" where
  "js_or a b = (if truthy a then a else b)"

text \<open>
  A record of \<^verbatim>\<open>db.data.keys\<close>. Dates are stored as ISO strings written by
  \<^verbatim>\<open>toISOString()\<close> and read back with \<^verbatim>\<open>new Date(...)\<close>; they are modelled by their
  millisecond value, \<^verbatim>\<open>lastUsedTime = null\<close> by \<open>None\<close>.
\<close>

record keyData =
  name :: string
  keyHash :: string
  creationDate :: int
  expirationDate :: int
  requestCount :: int
  lastUsedIp :: jsval
  lastUsedTime :: "int option"
  lastUsedUserAgent :: jsval

text \<open>
  \<^verbatim>\<open>findAndValidateKey(key)\<close>: the first record whose hash \<^verbatim>\<open>bcrypt.compare\<close> accepts
  for the key. The bcrypt primitive is the parameter \<open>compare\<close>.
\<close>

fun findAndValidateKey :: "(string \<Rightarrow> string \<Rightarrow> bool) \<Rightarrow> string \<Rightarrow> keyData list \<Rightarrow> keyData option" where
  "findAndValidateKey compare key [] = None"
| "findAndValidateKey compare key (keyData # rest) =
     (if compare key (keyHash keyData) then Some keyData
      else findAndValidateKey compare key rest)"

text \<open>
  \<^verbatim>\<open>requestCount += 1\<close>. \<^verbatim>\<open>requestCount\<close> is a JavaScript number, a double that
  holds an integer (\<^verbatim>\<open>createKey\<close> starts it at 0). The sum is exact from \<open>-2^53\<close> up
  to, but not including, \<open>2^53\<close>. Beyond, the doubles are the even integers (up to
  \<open>2^54\<close> in size) and then sparser ones, and the sum is rounded to the nearest of them,
  a tie going to the one with the even significand: at \<open>2^53\<close> the count stays \<open>2^53\<close>.
\<close>

definition js_add_one :: "int \<Rightarrow> int" where
  "js_add_one n =
     (if - 9007199254740992 \<le> n \<and> n < 9007199254740992 then n + 1
      else if - 18014398509481984 < n \<and> n < 18014398509481984
           then (if (n div 2) mod 2 = 0 then n else n + 2)
      else n)"

text \<open>
  How an \<^verbatim>\<open>async\<close> call ends: its promise is fulfilled with a value, or it is
  rejected (the \<^verbatim>\<open>await\<close> throws).
\<close>

datatype 'a settled = Fulfilled 'a | Thrown

text \<open>
  \<^verbatim>\<open>incrementKeyUsage(keyHash, ip, userAgent)\<close> at clock reading \<open>now\<close>: \<^verbatim>\<open>findIndex\<close>
  takes the first record with that hash and the fields of that record of
  \<^verbatim>\<open>db.data.keys\<close> are assigned; then comes \<^verbatim>\<open>await db.write()\<close>, which persists the
  data or rejects (\<open>write_ok\<close> tells which; the disk is not part of the model). The
  result is how the call ends (fulfilled with the updated record, or with \<^verbatim>\<open>null\<close>,
  \<open>None\<close>, when no record has the hash and nothing is written) and \<^verbatim>\<open>db.data.keys\<close>
  afterwards: a rejected write leaves the assignments in place.
\<close>

fun incrementKeyUsage ::
  "bool \<Rightarrow> int \<Rightarrow> string \<Rightarrow> jsval \<Rightarrow> jsval \<Rightarrow> keyData list
     \<Rightarrow> keyData option settled \<times> keyData list" where
  "incrementKeyUsage write_ok now h ip userAgent [] = (Fulfilled None, [])"
| "incrementKeyUsage write_ok now h ip userAgent (keyData # rest) =
     (if keyHash keyData = h
      then (let updated = keyData\<lparr>requestCount := js_add_one (requestCount keyData),
                                   lastUsedIp := ip,
                                   lastUsedUserAgent := userAgent,
                                   lastUsedTime := Some now\<rparr>
            in (if write_ok then Fulfilled (Some updated) else Thrown, updated # rest))
      else (case incrementKeyUsage write_ok now h ip userAgent rest of
              (r, rest') \<Rightarrow> (r, keyData # rest')))"

text \<open>What the middleware reads of the request.\<close>

record request =
  body_key :: jsval
  access_key_header :: jsval
  req_ip :: jsval
  user_agent :: jsval

text \<open>
  The token store as the process holds it (\<^verbatim>\<open>db.data.keys\<close>, which is what every call
  of the middleware reads) and the side cache (\<^verbatim>\<open>appCache\<close>, keyed by the plaintext
  key).
\<close>

record app_state =
  db_keys :: "keyData list"
  appCache :: "string \<rightharpoonup> keyData"

text \<open>
  The outcomes of \<^verbatim>\<open>userAuthMiddleware\<close>: the three 401 responses, the 429 response,
  \<^verbatim>\<open>next()\<close> with the record put in \<^verbatim>\<open>req.keyData\<close>, and the 500 response of the
  \<^verbatim>\<open>catch\<close> block.
\<close>

datatype response =
    Access_key_required
  | Invalid_access_key
  | Access_key_expired
  | Another_device
  | Next keyData
  | Internal_server_error

definition LOCK_DURATION :: int where
  "LOCK_DURATION = 30 * 1000"

text \<open>
  \<^verbatim>\<open>userAuthMiddleware\<close>. The clock is read three times: \<open>t_expiry\<close> is the
  \<^verbatim>\<open>new Date()\<close> of the expiry test, \<open>t_lock\<close> the \<^verbatim>\<open>now\<close> of the lock test and
  \<open>t_usage\<close> the \<^verbatim>\<open>new Date()\<close> inside \<^verbatim>\<open>incrementKeyUsage\<close>. \<open>write_ok\<close> is the
  outcome of the \<^verbatim>\<open>db.write()\<close> of this call, should it come to it; when
  \<^verbatim>\<open>incrementKeyUsage\<close> throws, the \<^verbatim>\<open>catch\<close> block answers 500 and the cache is not
  touched.
\<close>

definition userAuthMiddleware ::
  "(string \<Rightarrow> string \<Rightarrow> bool) \<Rightarrow> bool \<Rightarrow> int \<Rightarrow> int \<Rightarrow> int \<Rightarrow> request \<Rightarrow> app_state
     \<Rightarrow> response \<times> app_state" where
  "userAuthMiddleware compare write_ok t_expiry t_lock t_usage req st =
     (case js_or (body_key req) (access_key_header req) of
        JString providedKey \<Rightarrow>
          if providedKey = [] then (Access_key_required, st)
          else
            (case findAndValidateKey compare providedKey (db_keys st) of
               None \<Rightarrow> (Invalid_access_key, st)
             | Some keyData \<Rightarrow>
                 if t_expiry > expirationDate keyData then (Access_key_expired, st)
                 else
                   let isLocked = (case lastUsedTime keyData of
                                     None \<Rightarrow> False
                                   | Some lastUsedDate \<Rightarrow> t_lock - lastUsedDate < LOCK_DURATION);
                       isDifferentDevice = (lastUsedIp keyData \<noteq> req_ip req
                                            \<or> lastUsedUserAgent keyData \<noteq> user_agent req)
                   in if isLocked \<and> isDifferentDevice then (Another_device, st)
                      else
                        (case incrementKeyUsage write_ok t_usage (keyHash keyData) (req_ip req)
                                (user_agent req) (db_keys st) of
                           (Fulfilled (Some updatedKeyData), keys') \<Rightarrow>
                             (Next updatedKeyData,
                              \<lparr>db_keys = keys',
                               appCache = (appCache st)(providedKey \<mapsto> updatedKeyData)\<rparr>)
                         | (Fulfilled None, keys') \<Rightarrow> (Next keyData, st\<lparr>db_keys := keys'\<rparr>)
                         | (Thrown, keys') \<Rightarrow> (Internal_server_error, st\<lparr>db_keys := keys'\<rparr>)))
      | JNull \<Rightarrow> (Access_key_required, st)
      | JUndefined \<Rightarrow> (Access_key_required, st))"

text \<open>The record as \<^verbatim>\<open>incrementKeyUsage\<close> leaves it.\<close>

definition used :: "int \<Rightarrow> jsval \<Rightarrow> jsval \<Rightarrow> keyData \<Rightarrow> keyData" where
  "used now ip userAgent keyData =
     keyData\<lparr>requestCount := js_add_one (requestCount keyData), lastUsedIp := ip,
             lastUsedUserAgent := userAgent, lastUsedTime := Some now\<rparr>"

section \<open>Properties of the pool\<close>

subsection \<open>The scans\<close>

lemma refresh_active_None_iff:
  "refresh_active now userId keys = None \<longleftrightarrow> holders userId keys = []"
  by (induction keys) (auto simp: holders_def split: option.splits if_splits)

lemma refresh_active_Some:
  "refresh_active now userId keys = Some (k, keys') \<Longrightarrow>
     \<exists>pre st post. keys = pre @ (k, st) # post \<and> holders userId pre = []
        \<and> user st = Some userId \<and> status st = in_use
        \<and> keys' = pre @ (k, st\<lparr>lastUsed := now\<rparr>) # post"
proof (induction keys arbitrary: keys')
  case Nil
  then show ?case by simp
next
  case (Cons e keys)
  obtain key state where e: "e = (key, state)" by (cases e)
  show ?case
  proof (cases "user state = Some userId \<and> status state = in_use")
    case True
    with Cons.prems e have "k = key" "keys' = (key, state\<lparr>lastUsed := now\<rparr>) # keys"
      by auto
    with True e show ?thesis
      by (intro exI[of _ "[]"] exI[of _ state] exI[of _ keys]) (simp add: holders_def)
  next
    case False
    with Cons.prems e obtain rest' where
      r: "refresh_active now userId keys = Some (k, rest')" and k': "keys' = (key, state) # rest'"
      by (auto split: option.splits)
    from Cons.IH[OF r] obtain pre st post where
      "keys = pre @ (k, st) # post" "holders userId pre = []"
      "user st = Some userId" "status st = in_use"
      "rest' = pre @ (k, st\<lparr>lastUsed := now\<rparr>) # post"
      by blast
    with False e k' show ?thesis
      by (intro exI[of _ "(key, state) # pre"] exI[of _ st] exI[of _ post])
         (auto simp: holders_def)
  qed
qed

lemma find_available_None_iff:
  "find_available now keys = None \<longleftrightarrow> (\<forall>(k, s) \<in> set keys. \<not> claimable now s)"
  by (induction keys) (auto split: if_splits)

lemma find_available_first:
  "\<forall>(k', s) \<in> set pre. \<not> claimable now s \<Longrightarrow> claimable now st \<Longrightarrow>
     find_available now (pre @ (k, st) # post) = Some k"
  by (induction pre) auto

lemma find_available_in_pool:
  "find_available now keys = Some k \<Longrightarrow> \<exists>s. (k, s) \<in> set keys \<and> claimable now s"
  by (induction keys) (auto split: if_splits)

lemma update_key_at:
  "k \<notin> fst ` set pre \<Longrightarrow> update_key k f (pre @ (k, st) # post) = pre @ (k, f st) # post"
  by (induction pre) auto

lemma update_key_keys [simp]: "map fst (update_key k f keys) = map fst keys"
  by (induction keys) auto

lemma map_of_update_key:
  "map_of (update_key k f keys) =
     (case map_of keys k of None \<Rightarrow> map_of keys | Some s \<Rightarrow> (map_of keys)(k \<mapsto> f s))"
  by (induction keys) (auto split: option.splits)

lemma holders_append [simp]:
  "holders u (xs @ ys) = holders u xs @ holders u ys"
  by (simp add: holders_def)

lemma holders_empty_iff:
  "holders u keys = [] \<longleftrightarrow> (\<forall>(k, s) \<in> set keys. \<not> (user s = Some u \<and> status s = in_use))"
  by (induction keys) (auto simp: holders_def)

subsection \<open>Unavailable leaves the pool alone\<close>

text \<open>
  C10. Whenever \<^verbatim>\<open>getKeyForUser\<close> returns \<^verbatim>\<open>null\<close> (Unavailable), the pool is left
  exactly as it was: no entry's status, user, lastUsed or errorSince has changed.
\<close>

theorem getKeyForUser_null_unchanged:
  "getKeyForUser now userId keys = (None, keys') \<Longrightarrow> keys' = keys"
  by (auto simp: getKeyForUser_def split: option.splits if_splits)


theorem getKeyForUser_null_unchanged_witness:
  "getKeyForUser 1000 ''caller-b''
       [(''key-1'', \<lparr>status = in_use, user = Some ''caller-a'', lastUsed = 500, errorSince = 0\<rparr>)]
     = (None,
       [(''key-1'', \<lparr>status = in_use, user = Some ''caller-a'', lastUsed = 500, errorSince = 0\<rparr>)])"
proof -
  let ?P = "[(''key-1'', \<lparr>status = in_use, user = Some ''caller-a'', lastUsed = 500, errorSince = 0\<rparr>)]"
  have r: "getKeyForUser 1000 ''caller-b'' ?P = (None, snd (getKeyForUser 1000 ''caller-b'' ?P))"
    by (simp add: getKeyForUser_def claimable_def KEY_LOCK_DURATION_def KEY_ERROR_COOLDOWN_def)
  from getKeyForUser_null_unchanged[OF r] r show ?thesis by simp
qed

subsection \<open>What loadKeys builds\<close>

lemma loadKeys_forEach_wf:
  "wf_pool keys \<Longrightarrow> wf_pool (loadKeys_forEach json_keys keys)"
proof (induction json_keys arbitrary: keys)
  case Nil
  then show ?case by simp
next
  case (Cons key rest)
  let ?keys = "if key \<noteq> [] \<and> \<not> has keys key then keys @ [(key, initial_state)] else keys"
  from Cons.prems have "wf_pool ?keys"
    by (auto simp: wf_pool_def has_def)
  then have "wf_pool (loadKeys_forEach rest ?keys)" by (rule Cons.IH)
  then show ?case by simp
qed

lemma loadKeys_wf: "wf_pool (loadKeys json_keys)"
proof -
  have "wf_pool []" by (simp add: wf_pool_def)
  then show ?thesis unfolding loadKeys_def by (rule loadKeys_forEach_wf)
qed

lemma loadKeys_forEach_initial:
  "\<forall>(k, s) \<in> set keys. s = initial_state \<Longrightarrow>
     \<forall>(k, s) \<in> set (loadKeys_forEach json_keys keys). s = initial_state"
proof (induction json_keys arbitrary: keys)
  case Nil
  then show ?case by simp
next
  case (Cons key rest)
  let ?keys = "if key \<noteq> [] \<and> \<not> has keys key then keys @ [(key, initial_state)] else keys"
  from Cons.prems have "\<forall>(k, s) \<in> set ?keys. s = initial_state"
    by auto
  then have "\<forall>(k, s) \<in> set (loadKeys_forEach rest ?keys). s = initial_state"
    by (rule Cons.IH)
  then show ?case by simp
qed

lemma loadKeys_initial: "(k, s) \<in> set (loadKeys json_keys) \<Longrightarrow> s = initial_state"
  using loadKeys_forEach_initial[of "[]" json_keys] by (auto simp: loadKeys_def)

lemma loadKeys_holders: "holders u (loadKeys json_keys) = []"
  by (auto simp: holders_empty_iff initial_state_def dest!: loadKeys_initial)

subsection \<open>One key per caller\<close>

lemma holders_update_key_le:
  "(\<And>s. \<not> (user (f s) = Some u \<and> status (f s) = in_use)) \<Longrightarrow>
     length (holders u (update_key k f keys)) \<le> length (holders u keys)"
proof (induction keys)
  case Nil
  then show ?case by simp
next
  case (Cons e keys)
  obtain key state where e: "e = (key, state)" by (cases e)
  show ?case
  proof (cases "key = k")
    case True
    with e Cons.prems[of state] show ?thesis by (auto simp: holders_def)
  next
    case False
    with e Cons.IH[OF Cons.prems] show ?thesis by (simp add: holders_def)
  qed
qed

lemma holders_update_key_Suc:
  "length (holders u (update_key k f keys)) \<le> Suc (length (holders u keys))"
proof (induction keys)
  case Nil
  then show ?case by simp
next
  case (Cons e keys)
  obtain key state where e: "e = (key, state)" by (cases e)
  show ?case
  proof (cases "key = k")
    case True
    with e show ?thesis by (simp add: holders_def)
  next
    case False
    with e Cons.IH show ?thesis by (simp add: holders_def)
  qed
qed

lemma holders_refresh_active:
  assumes "refresh_active now userId keys = Some (k, keys')"
  shows "holders u keys' = holders u keys"
proof -
  from refresh_active_Some[OF assms] obtain pre st post where
    "keys = pre @ (k, st) # post" "keys' = pre @ (k, st\<lparr>lastUsed := now\<rparr>) # post"
    by blast
  then show ?thesis by (simp add: holders_def)
qed

lemma getKeyForUser_holders:
  assumes "length (holders u keys) \<le> 1"
  shows "length (holders u (snd (getKeyForUser now userId keys))) \<le> 1"
proof (cases "refresh_active now userId keys")
  case (Some r)
  then obtain k keys' where "refresh_active now userId keys = Some (k, keys')"
    by (cases r) simp
  with assms show ?thesis
    by (simp add: getKeyForUser_def holders_refresh_active)
next
  case None
  note none = None
  show ?thesis
  proof (cases "find_available now keys")
    case None
    with none assms show ?thesis by (simp add: getKeyForUser_def)
  next
    case (Some availableKey)
    let ?f = "\<lambda>state. state\<lparr>status := in_use, user := Some userId, lastUsed := now, errorSince := 0\<rparr>"
    have "length (holders u (update_key availableKey ?f keys)) \<le> 1"
    proof (cases "u = userId")
      case True
      with none have "holders u keys = []" by (simp add: refresh_active_None_iff)
      with holders_update_key_Suc[of u availableKey ?f keys] show ?thesis by simp
    next
      case False
      then have "length (holders u (update_key availableKey ?f keys)) \<le> length (holders u keys)"
        by (intro holders_update_key_le) simp
      with assms show ?thesis by simp
    qed
    with none Some assms show ?thesis by (simp add: getKeyForUser_def)
  qed
qed

lemma reportError_holders:
  "length (holders u (reportError now apiKey keys)) \<le> length (holders u keys)"
  by (simp add: reportError_def holders_update_key_le)

lemma apply_op_holders:
  "length (holders u keys) \<le> 1 \<Longrightarrow> length (holders u (snd (apply_op c keys))) \<le> 1"
proof (cases c)
  case (Acquire now userId)
  assume "length (holders u keys) \<le> 1"
  then have "length (holders u (snd (getKeyForUser now userId keys))) \<le> 1"
    by (rule getKeyForUser_holders)
  with Acquire show ?thesis by simp
next
  case (ReportError now apiKey)
  assume "length (holders u keys) \<le> 1"
  with ReportError reportError_holders[of u now apiKey keys] show ?thesis by simp
qed

lemma run_holders:
  "length (holders u keys) \<le> 1 \<Longrightarrow> length (holders u (run cs keys)) \<le> 1"
proof (induction cs arbitrary: keys)
  case Nil
  then show ?case by simp
next
  case (Cons c cs)
  from Cons.prems have "length (holders u (snd (apply_op c keys))) \<le> 1"
    by (rule apply_op_holders)
  then have "length (holders u (run cs (snd (apply_op c keys)))) \<le> 1"
    by (rule Cons.IH)
  then show ?case by simp
qed

text \<open>
  C7. In every pool reachable from the loaded pool by any sequence of
  \<^verbatim>\<open>getKeyForUser\<close> and \<^verbatim>\<open>reportError\<close> calls, each caller identity has at most one
  entry with status \<^verbatim>\<open>'in_use'\<close> and \<^verbatim>\<open>user\<close> equal to that identity.
\<close>

theorem one_key_per_caller:
  "length (holders userId (run cs (loadKeys json_keys))) \<le> 1"
  by (rule run_holders) (simp add: loadKeys_holders)


subsection \<open>Exhaustion and reuse of a stale lease\<close>

lemma getKeyForUser_assigns_first:
  assumes wf: "wf_pool (pre @ (k, st) # post)"
    and none: "holders userId (pre @ (k, st) # post) = []"
    and pre: "\<forall>(k', s) \<in> set pre. \<not> claimable now s"
    and st: "claimable now st"
  shows "getKeyForUser now userId (pre @ (k, st) # post) =
           (Some k, pre @ (k, st\<lparr>status := in_use, user := Some userId,
                                 lastUsed := now, errorSince := 0\<rparr>) # post)"
proof -
  let ?keys = "pre @ (k, st) # post"
  from none have r: "refresh_active now userId ?keys = None"
    by (simp only: refresh_active_None_iff)
  from pre st have f: "find_available now ?keys = Some k"
    by (rule find_available_first)
  from wf have k: "k \<noteq> []" "k \<notin> fst ` set pre"
    by (auto simp: wf_pool_def)
  from r f k show ?thesis
    by (simp add: getKeyForUser_def update_key_at)
qed

text \<open>
  C1. In a pool whose entries all have status \<^verbatim>\<open>'in_use'\<close>, none of them held by the
  caller: if every lease is fresh (\<open>now - lastUsed \<le> KEY_LOCK_DURATION\<close>, two minutes),
  \<^verbatim>\<open>getKeyForUser\<close> returns \<^verbatim>\<open>null\<close>; and at a time \<open>later\<close> at which strictly more
  than \<open>KEY_LOCK_DURATION\<close> has passed since the \<open>lastUsed\<close> of an entry, while the
  entries before it in the pool's order are still fresh, the call returns that entry's
  key, now held by the caller.
\<close>

theorem exhausted_until_lease_stale:
  assumes "wf_pool keys"
    and "\<forall>(k, s) \<in> set keys. status s = in_use \<and> user s \<noteq> Some userId"
  shows "KEY_LOCK_DURATION = 120000
    \<and> ((\<forall>(k, s) \<in> set keys. now - lastUsed s \<le> KEY_LOCK_DURATION)
          \<longrightarrow> getKeyForUser now userId keys = (None, keys))
    \<and> (\<forall>pre k st post later.
          keys = pre @ (k, st) # post
          \<and> (\<forall>(k', s) \<in> set pre. later - lastUsed s \<le> KEY_LOCK_DURATION)
          \<and> later - lastUsed st > KEY_LOCK_DURATION
          \<longrightarrow> getKeyForUser later userId keys =
                (Some k, pre @ (k, st\<lparr>status := in_use, user := Some userId,
                                      lastUsed := later, errorSince := 0\<rparr>) # post))"
proof (intro conjI allI impI)
  show "KEY_LOCK_DURATION = 120000" by (simp add: KEY_LOCK_DURATION_def)
next
  from assms(2) have none: "holders userId keys = []"
    by (auto simp: holders_empty_iff)
  assume "\<forall>(k, s) \<in> set keys. now - lastUsed s \<le> KEY_LOCK_DURATION"
  with assms(2) have "\<forall>(k, s) \<in> set keys. \<not> claimable now s"
    by (fastforce simp: claimable_def)
  then have "find_available now keys = None"
    by (simp only: find_available_None_iff)
  moreover from none have "refresh_active now userId keys = None"
    by (simp only: refresh_active_None_iff)
  ultimately show "getKeyForUser now userId keys = (None, keys)"
    by (simp add: getKeyForUser_def)
next
  fix pre k st post later
  assume a: "keys = pre @ (k, st) # post
          \<and> (\<forall>(k', s) \<in> set pre. later - lastUsed s \<le> KEY_LOCK_DURATION)
          \<and> later - lastUsed st > KEY_LOCK_DURATION"
  from assms(2) have none: "holders userId keys = []"
    by (auto simp: holders_empty_iff)
  from a assms(2) have used: "\<forall>(k', s) \<in> set pre. status s = in_use" "status st = in_use"
    by auto
  from a used(1) have pre: "\<forall>(k', s) \<in> set pre. \<not> claimable later s"
    by (auto simp: claimable_def)
  from a used(2) have st: "claimable later st"
    by (simp add: claimable_def)
  from assms(1) none a have "wf_pool (pre @ (k, st) # post)"
    "holders userId (pre @ (k, st) # post) = []" by simp_all
  from getKeyForUser_assigns_first[OF this pre st] a
  show "getKeyForUser later userId keys =
          (Some k, pre @ (k, st\<lparr>status := in_use, user := Some userId,
                                lastUsed := later, errorSince := 0\<rparr>) # post)"
    by simp
qed


theorem exhausted_until_lease_stale_witness:
  "getKeyForUser 100000 ''caller-c''
      [(''key-1'', \<lparr>status = in_use, user = Some ''caller-a'', lastUsed = 5000, errorSince = 0\<rparr>),
       (''key-2'', \<lparr>status = in_use, user = Some ''caller-b'', lastUsed = 2000, errorSince = 0\<rparr>)]
    = (None,
      [(''key-1'', \<lparr>status = in_use, user = Some ''caller-a'', lastUsed = 5000, errorSince = 0\<rparr>),
       (''key-2'', \<lparr>status = in_use, user = Some ''caller-b'', lastUsed = 2000, errorSince = 0\<rparr>)])
   \<and> getKeyForUser 122001 ''caller-c''
      [(''key-1'', \<lparr>status = in_use, user = Some ''caller-a'', lastUsed = 5000, errorSince = 0\<rparr>),
       (''key-2'', \<lparr>status = in_use, user = Some ''caller-b'', lastUsed = 2000, errorSince = 0\<rparr>)]
    = (Some ''key-2'',
      [(''key-1'', \<lparr>status = in_use, user = Some ''caller-a'', lastUsed = 5000, errorSince = 0\<rparr>),
       (''key-2'', \<lparr>status = in_use, user = Some ''caller-c'', lastUsed = 122001, errorSince = 0\<rparr>)])"
proof -
  let ?s1 = "\<lparr>status = in_use, user = Some ''caller-a'', lastUsed = 5000, errorSince = 0\<rparr>"
  let ?s2 = "\<lparr>status = in_use, user = Some ''caller-b'', lastUsed = 2000, errorSince = 0\<rparr>"
  let ?P = "[(''key-1'', ?s1), (''key-2'', ?s2)]"
  have wf: "wf_pool ?P" by (simp add: wf_pool_def)
  have busy: "\<forall>(k, s) \<in> set ?P. status s = in_use \<and> user s \<noteq> Some ''caller-c''" by simp
  note t = exhausted_until_lease_stale[OF wf busy]
  have "getKeyForUser 100000 ''caller-c'' ?P = (None, ?P)"
    using t[of 100000] by (simp add: KEY_LOCK_DURATION_def)
  moreover have "getKeyForUser 122001 ''caller-c'' ?P =
      (Some ''key-2'', [(''key-1'', ?s1),
        (''key-2'', ?s2\<lparr>status := in_use, user := Some ''caller-c'',
                         lastUsed := 122001, errorSince := 0\<rparr>)])"
    using t[of 0, THEN conjunct2, THEN conjunct2, rule_format,
            of "[(''key-1'', ?s1)]" "''key-2''" ?s2 "[]" 122001]
    by (simp add: KEY_LOCK_DURATION_def)
  ultimately show ?thesis by simp
qed


subsection \<open>Affinity\<close>

lemma affinity_step:
  assumes dist: "distinct (map fst keys)"
    and one: "length (holders userId keys) \<le> 1"
    and mem: "(key, st) \<in> set keys"
    and st: "status st = in_use" "user st = Some userId"
  shows "getKeyForUser now userId keys =
           (Some key, update_key key (\<lambda>s. s\<lparr>lastUsed := now\<rparr>) keys)"
    and "(key, st\<lparr>lastUsed := now\<rparr>) \<in> set (update_key key (\<lambda>s. s\<lparr>lastUsed := now\<rparr>) keys)"
    and "holders userId (update_key key (\<lambda>s. s\<lparr>lastUsed := now\<rparr>) keys) = holders userId keys"
proof -
  from mem st have "holders userId keys \<noteq> []"
    by (auto simp: holders_empty_iff)
  then have "refresh_active now userId keys \<noteq> None"
    by (simp only: refresh_active_None_iff not_False_eq_True)
  then obtain k keys' where r: "refresh_active now userId keys = Some (k, keys')"
    by (cases "refresh_active now userId keys") auto
  from refresh_active_Some[OF r] obtain pre st' post where
    d: "keys = pre @ (k, st') # post" and pre: "holders userId pre = []"
    and st': "user st' = Some userId" "status st' = in_use"
    and k': "keys' = pre @ (k, st'\<lparr>lastUsed := now\<rparr>) # post"
    by blast
  from d st' have "holders userId keys = holders userId pre @ k # holders userId post"
    by (simp add: holders_def)
  with one pre have post: "holders userId post = []" by simp
  from mem d have "(key, st) \<in> set pre \<or> (key, st) = (k, st') \<or> (key, st) \<in> set post"
    by auto
  with pre post st have same: "key = k" "st = st'"
    by (auto simp: holders_empty_iff)
  from dist d have "k \<notin> fst ` set pre" by auto
  then have u: "update_key k (\<lambda>s. s\<lparr>lastUsed := now\<rparr>) keys = keys'"
    unfolding d k' by (rule update_key_at)
  from r u same show "getKeyForUser now userId keys =
           (Some key, update_key key (\<lambda>s. s\<lparr>lastUsed := now\<rparr>) keys)"
    by (simp add: getKeyForUser_def)
  from u same k' show
    "(key, st\<lparr>lastUsed := now\<rparr>) \<in> set (update_key key (\<lambda>s. s\<lparr>lastUsed := now\<rparr>) keys)"
    by simp
  from u same holders_refresh_active[OF r] show
    "holders userId (update_key key (\<lambda>s. s\<lparr>lastUsed := now\<rparr>) keys) = holders userId keys"
    by simp
qed

lemma affinity_repeated:
  assumes "distinct (map fst keys)"
    and "length (holders userId keys) \<le> 1"
    and "(key, st) \<in> set keys"
    and "status st = in_use" "user st = Some userId"
  shows "returned (map (\<lambda>t. Acquire t userId) ts) keys = map (\<lambda>t. Some key) ts"
  using assms
proof (induction ts arbitrary: keys st)
  case Nil
  then show ?case by simp
next
  case (Cons now ts)
  let ?keys' = "update_key key (\<lambda>s. s\<lparr>lastUsed := now\<rparr>) keys"
  note step = affinity_step[OF Cons.prems, of now]
  have "returned (map (\<lambda>t. Acquire t userId) ts) ?keys' = map (\<lambda>t. Some key) ts"
  proof (rule Cons.IH)
    show "distinct (map fst ?keys')" using Cons.prems(1) by simp
    show "length (holders userId ?keys') \<le> 1" using Cons.prems(2) step(3) by simp
    show "(key, st\<lparr>lastUsed := now\<rparr>) \<in> set ?keys'" by (rule step(2))
    show "status (st\<lparr>lastUsed := now\<rparr>) = in_use" using Cons.prems(4) by simp
    show "user (st\<lparr>lastUsed := now\<rparr>) = Some userId" using Cons.prems(5) by simp
  qed
  with step(1) show ?case by simp
qed

text \<open>
  C2. For a caller that holds a key (an entry with status \<^verbatim>\<open>'in_use'\<close> whose
  \<^verbatim>\<open>user\<close> is the caller; by C7 there is at most one), \<^verbatim>\<open>getKeyForUser\<close> returns that
  key and sets its \<^verbatim>\<open>lastUsed\<close> to \<open>now\<close>, whatever the other entries look like: no
  other entry is considered or changed. Hence any number of repeated calls by that caller,
  at any clock readings, all return the same key.
\<close>

theorem affinity_before_assignment:
  assumes "distinct (map fst keys)"
    and "length (holders userId keys) \<le> 1"
    and "(key, st) \<in> set keys"
    and "status st = in_use" "user st = Some userId"
  shows "getKeyForUser now userId keys =
           (Some key, update_key key (\<lambda>s. s\<lparr>lastUsed := now\<rparr>) keys)
    \<and> map fst (snd (getKeyForUser now userId keys)) = map fst keys
    \<and> map_of (snd (getKeyForUser now userId keys)) = (map_of keys)(key \<mapsto> st\<lparr>lastUsed := now\<rparr>)
    \<and> returned (map (\<lambda>t. Acquire t userId) ts) keys = map (\<lambda>t. Some key) ts"
proof -
  note step = affinity_step[OF assms, of now]
  from assms(1,3) have "map_of keys key = Some st" by simp
  then have "map_of (update_key key (\<lambda>s. s\<lparr>lastUsed := now\<rparr>) keys)
               = (map_of keys)(key \<mapsto> st\<lparr>lastUsed := now\<rparr>)"
    by (simp add: map_of_update_key)
  with step(1) affinity_repeated[OF assms, of ts] show ?thesis by simp
qed

theorem affinity_before_assignment_witness:
  "getKeyForUser 200000 ''caller-b''
      [(''key-1'', \<lparr>status = available, user = None, lastUsed = 0, errorSince = 0\<rparr>),
       (''key-2'', \<lparr>status = in_use, user = Some ''caller-b'', lastUsed = 1000, errorSince = 0\<rparr>)]
    = (Some ''key-2'',
      [(''key-1'', \<lparr>status = available, user = None, lastUsed = 0, errorSince = 0\<rparr>),
       (''key-2'', \<lparr>status = in_use, user = Some ''caller-b'', lastUsed = 200000, errorSince = 0\<rparr>)])
   \<and> returned [Acquire 200000 ''caller-b'', Acquire 200001 ''caller-b'', Acquire 900000 ''caller-b'']
      [(''key-1'', \<lparr>status = available, user = None, lastUsed = 0, errorSince = 0\<rparr>),
       (''key-2'', \<lparr>status = in_use, user = Some ''caller-b'', lastUsed = 1000, errorSince = 0\<rparr>)]
    = [Some ''key-2'', Some ''key-2'', Some ''key-2'']"
proof -
  let ?s1 = "\<lparr>status = available, user = None, lastUsed = 0, errorSince = 0\<rparr>"
  let ?s2 = "\<lparr>status = in_use, user = Some ''caller-b'', lastUsed = 1000, errorSince = 0\<rparr>"
  let ?P = "[(''key-1'', ?s1), (''key-2'', ?s2)]"
  have h1: "distinct (map fst ?P)" by simp
  have h2: "length (holders ''caller-b'' ?P) \<le> 1" by (simp add: holders_def)
  have h3: "(''key-2'', ?s2) \<in> set ?P" by simp
  have h4: "status ?s2 = in_use" and h5: "user ?s2 = Some ''caller-b''" by simp_all
  note t = affinity_before_assignment[OF h1 h2 h3 h4 h5, of 200000 "[200000, 200001, 900000]"]
  from t have "getKeyForUser 200000 ''caller-b'' ?P =
      (Some ''key-2'', update_key ''key-2'' (\<lambda>s. s\<lparr>lastUsed := 200000\<rparr>) ?P)"
    by (rule conjunct1)
  moreover have "returned (map (\<lambda>t. Acquire t ''caller-b'') [200000, 200001, 900000]) ?P
      = map (\<lambda>t. Some ''key-2'') [200000, 200001, 900000 :: int]"
    by (rule t[THEN conjunct2, THEN conjunct2, THEN conjunct2])
  ultimately show ?thesis by simp
qed


subsection \<open>Reporting a key as faulty\<close>

lemma has_map_of: "has keys k \<longleftrightarrow> map_of keys k \<noteq> None"
  by (induction keys) (auto simp: has_def)

lemma has_update_key [simp]: "has (update_key k f keys) k' = has keys k'"
  by (simp add: has_def)

lemma update_key_twice:
  "update_key k f (update_key k g keys) = update_key k (\<lambda>s. f (g s)) keys"
  by (induction keys) auto

lemma reportError_keys [simp]: "map fst (reportError now apiKey keys) = map fst keys"
  by (simp add: reportError_def)

lemma map_of_reportError:
  "map_of keys apiKey = Some st \<Longrightarrow>
     map_of (reportError now apiKey keys) =
       (map_of keys)(apiKey \<mapsto> st\<lparr>status := error, user := None, errorSince := now\<rparr>)"
  by (simp add: reportError_def has_map_of map_of_update_key)

lemma reportError_absorbs:
  "reportError later apiKey (reportError now apiKey keys) = reportError later apiKey keys"
  by (simp add: reportError_def update_key_twice)

text \<open>
  C9, as the code has it. For a key of the pool, \<^verbatim>\<open>reportError\<close> sets its status to
  \<^verbatim>\<open>'error'\<close>, its \<^verbatim>\<open>user\<close> to \<^verbatim>\<open>null\<close> and its \<^verbatim>\<open>errorSince\<close> to the clock
  reading of the call, whatever the entry was before, and changes no other entry. A
  second call on the same key leaves status and user as they are and moves
  \<^verbatim>\<open>errorSince\<close> to its own clock reading: the pool after two calls is the pool after
  one call made at the later reading, and it is the pool after the first call exactly
  when both calls read the same clock value.
\<close>

theorem reportError_marks_faulty:
  assumes "map_of keys apiKey = Some st"
  shows "map fst (reportError now apiKey keys) = map fst keys
    \<and> map_of (reportError now apiKey keys) =
        (map_of keys)(apiKey \<mapsto> st\<lparr>status := error, user := None, errorSince := now\<rparr>)
    \<and> reportError later apiKey (reportError now apiKey keys) = reportError later apiKey keys
    \<and> (reportError later apiKey (reportError now apiKey keys) = reportError now apiKey keys
         \<longleftrightarrow> later = now)"
proof -
  have "later = now"
    if eq: "reportError later apiKey (reportError now apiKey keys) = reportError now apiKey keys"
  proof -
    from eq have "map_of (reportError later apiKey keys) apiKey
                    = map_of (reportError now apiKey keys) apiKey"
      by (simp add: reportError_absorbs)
    with assms show ?thesis
      by (simp add: map_of_reportError) (metis key_state.select_convs(4) key_state.surjective key_state.update_convs(4))
  qed
  moreover have "reportError now apiKey (reportError now apiKey keys) = reportError now apiKey keys"
    by (rule reportError_absorbs)
  ultimately show ?thesis
    using assms by (auto simp: map_of_reportError reportError_absorbs)
qed

theorem reportError_marks_faulty_witness:
  "map_of (reportError 7000 ''key-1''
      [(''key-1'', \<lparr>status = in_use, user = Some ''caller-a'', lastUsed = 5000, errorSince = 0\<rparr>)])
    ''key-1''
    = Some \<lparr>status = error, user = None, lastUsed = 5000, errorSince = 7000\<rparr>"
proof -
  let ?s = "\<lparr>status = in_use, user = Some ''caller-a'', lastUsed = 5000, errorSince = 0\<rparr>"
  have "map_of [(''key-1'', ?s)] ''key-1'' = Some ?s" by simp
  from reportError_marks_faulty[OF this, of 7000] show ?thesis by simp
qed

text \<open>
  The claim as the specification states it (two calls in succession leave the pool as
  one call does) fails when the clock has moved between the calls: the second call
  restarts the cooldown.
\<close>

theorem reportError_twice_counterexample:
  "reportError 2000 ''key-1'' (reportError 1000 ''key-1'' (loadKeys [''key-1'']))
     \<noteq> reportError 1000 ''key-1'' (loadKeys [''key-1''])"
  by (simp add: loadKeys_def reportError_def has_def initial_state_def)


subsection \<open>Cooldown of a faulty key\<close>

lemma update_key_set:
  "(k, s) \<in> set (update_key k' f keys) \<Longrightarrow>
     (k, s) \<in> set keys \<or> (k = k' \<and> (\<exists>s'. (k', s') \<in> set keys \<and> s = f s'))"
  by (induction keys) (auto split: if_splits)

lemma getKeyForUser_keys [simp]:
  "map fst (snd (getKeyForUser now userId keys)) = map fst keys"
proof (cases "refresh_active now userId keys")
  case None
  then show ?thesis by (simp add: getKeyForUser_def split: option.splits)
next
  case (Some r)
  then obtain k keys' where r: "refresh_active now userId keys = Some (k, keys')"
    by (cases r) simp
  from refresh_active_Some[OF r] r show ?thesis
    by (auto simp: getKeyForUser_def)
qed

lemma cooling_iff:
  "cooling t apiKey keys \<longleftrightarrow>
     (\<forall>s. (apiKey, s) \<in> set keys \<longrightarrow> status s = error \<and> user s = None \<and> t \<le> errorSince s)"
  by (auto simp: cooling_def list_all_iff)

lemma cooling_reportError:
  assumes "distinct (map fst keys)"
  shows "cooling t apiKey (reportError t apiKey keys)"
proof (cases "has keys apiKey")
  case False
  then show ?thesis by (force simp: cooling_iff reportError_def has_def)
next
  case True
  then obtain pre st post where d: "keys = pre @ (apiKey, st) # post"
    by (auto simp: has_def dest!: split_list)
  with assms have notin: "apiKey \<notin> fst ` set pre" "apiKey \<notin> fst ` set post" by auto
  from True d notin(1) have "reportError t apiKey keys =
      pre @ (apiKey, st\<lparr>status := error, user := None, errorSince := t\<rparr>) # post"
    by (simp add: reportError_def update_key_at)
  with notin show ?thesis by (force simp: cooling_iff)
qed

lemma cooling_not_claimable:
  "cooling t apiKey keys \<Longrightarrow> now - t \<le> KEY_ERROR_COOLDOWN \<Longrightarrow> (apiKey, s) \<in> set keys \<Longrightarrow>
     \<not> claimable now s"
  by (auto simp: cooling_iff claimable_def)

lemma cooling_getKeyForUser:
  assumes c: "cooling t apiKey keys" and now: "now - t \<le> KEY_ERROR_COOLDOWN"
  shows "fst (getKeyForUser now userId keys) \<noteq> Some apiKey"
    and "cooling t apiKey (snd (getKeyForUser now userId keys))"
proof -
  have "fst (getKeyForUser now userId keys) \<noteq> Some apiKey
        \<and> cooling t apiKey (snd (getKeyForUser now userId keys))"
  proof (cases "refresh_active now userId keys")
    case (Some r)
    then obtain k keys' where r: "refresh_active now userId keys = Some (k, keys')"
      by (cases r) simp
    from refresh_active_Some[OF r] obtain pre st post where
      d: "keys = pre @ (k, st) # post" "user st = Some userId"
         "keys' = pre @ (k, st\<lparr>lastUsed := now\<rparr>) # post"
      by blast
    from c d(1,2) have "k \<noteq> apiKey" by (auto simp: cooling_iff)
    moreover from this c d have "cooling t apiKey keys'" by (auto simp: cooling_iff)
    ultimately show ?thesis using r by (simp add: getKeyForUser_def)
  next
    case None
    note none = None
    show ?thesis
    proof (cases "find_available now keys")
      case None
      with none c show ?thesis by (simp add: getKeyForUser_def)
    next
      case (Some k)
      from find_available_in_pool[OF Some] obtain s where
        s: "(k, s) \<in> set keys" "claimable now s" by blast
      with cooling_not_claimable[OF c now] have ne: "k \<noteq> apiKey" by blast
      have "cooling t apiKey (update_key k f keys)" for f
        using c ne by (auto simp: cooling_iff dest!: update_key_set)
      with none Some ne c show ?thesis by (simp add: getKeyForUser_def)
    qed
  qed
  then show "fst (getKeyForUser now userId keys) \<noteq> Some apiKey"
    and "cooling t apiKey (snd (getKeyForUser now userId keys))" by simp_all
qed

lemma cooling_reportError_other:
  assumes "cooling t apiKey keys" and "k \<noteq> apiKey \<or> t \<le> now"
  shows "cooling t apiKey (reportError now k keys)"
proof (cases "has keys k")
  case False
  with assms(1) show ?thesis by (simp add: reportError_def)
next
  case True
  with assms show ?thesis
    by (auto simp: reportError_def cooling_iff dest!: update_key_set)
qed

lemma cooling_returned:
  "cooling t apiKey keys \<Longrightarrow> list_all (within_cooldown t apiKey) cs \<Longrightarrow>
     Some apiKey \<notin> set (returned cs keys)"
proof (induction cs arbitrary: keys)
  case Nil
  then show ?case by simp
next
  case (Cons c cs)
  show ?case
  proof (cases c)
    case (Acquire now userId)
    with Cons.prems have now: "now - t \<le> KEY_ERROR_COOLDOWN" by simp
    note step = cooling_getKeyForUser[OF Cons.prems(1) now, of userId]
    from Cons.prems(2) have "list_all (within_cooldown t apiKey) cs" by simp
    from Cons.IH[OF step(2) this] step(1) Acquire show ?thesis by auto
  next
    case (ReportError now k)
    with Cons.prems have "k \<noteq> apiKey \<or> t \<le> now" by simp
    from cooling_reportError_other[OF Cons.prems(1) this]
    have "cooling t apiKey (reportError now k keys)" .
    moreover from Cons.prems(2) have "list_all (within_cooldown t apiKey) cs" by simp
    ultimately have "Some apiKey \<notin> set (returned cs (reportError now k keys))"
      by (rule Cons.IH)
    with ReportError show ?thesis by simp
  qed
qed


text \<open>
  C5. Let a key of the pool be reported faulty at clock reading \<open>t\<close>. In any sequence
  of calls that follows, in which every \<^verbatim>\<open>getKeyForUser\<close> (by whatever caller) is made
  at a reading \<open>now\<close> with \<open>now - t \<le> KEY_ERROR_COOLDOWN\<close> (five minutes), no call
  returns that key; such a call returns \<^verbatim>\<open>null\<close> when no other entry can be assigned
  and the caller holds none. The reported entry meets the condition of step 2 exactly at
  the readings with \<open>now - t > KEY_ERROR_COOLDOWN\<close>, and a call made then, by a caller
  holding no key and with no assignable entry earlier in the pool's order, returns it.
\<close>

theorem faulty_key_cooldown:
  assumes "wf_pool keys" and "keys = pre @ (apiKey, st) # post"
  shows "KEY_ERROR_COOLDOWN = 300000
    \<and> (list_all (within_cooldown t apiKey) cs
         \<longrightarrow> Some apiKey \<notin> set (returned cs (reportError t apiKey keys)))
    \<and> (now - t \<le> KEY_ERROR_COOLDOWN
         \<and> (\<forall>(k, s) \<in> set (pre @ post).
               \<not> claimable now s \<and> \<not> (user s = Some userId \<and> status s = in_use))
         \<longrightarrow> getKeyForUser now userId (reportError t apiKey keys)
               = (None, reportError t apiKey keys))
    \<and> (\<forall>s. map_of (reportError t apiKey keys) apiKey = Some s
            \<longrightarrow> (claimable now s \<longleftrightarrow> now - t > KEY_ERROR_COOLDOWN))
    \<and> (now - t > KEY_ERROR_COOLDOWN
         \<and> (\<forall>(k, s) \<in> set pre. \<not> claimable now s)
         \<and> (\<forall>(k, s) \<in> set (pre @ post). \<not> (user s = Some userId \<and> status s = in_use))
         \<longrightarrow> getKeyForUser now userId (reportError t apiKey keys)
               = (Some apiKey,
                  pre @ (apiKey, st\<lparr>status := in_use, user := Some userId,
                                      lastUsed := now, errorSince := 0\<rparr>) # post))"
proof -
  let ?st = "st\<lparr>status := error, user := None, errorSince := t\<rparr>"
  let ?keys = "pre @ (apiKey, ?st) # post"
  from assms have notin: "apiKey \<notin> fst ` set pre" "apiKey \<notin> fst ` set post"
    and dist: "distinct (map fst keys)"
    by (auto simp: wf_pool_def)
  from assms(2) notin(1) have rep: "reportError t apiKey keys = ?keys"
    by (simp add: reportError_def has_def update_key_at)
  from assms rep have wf': "wf_pool ?keys"
    by (simp add: wf_pool_def)
  have c1: "KEY_ERROR_COOLDOWN = 300000"
    by (simp add: KEY_ERROR_COOLDOWN_def)
  have c2: "Some apiKey \<notin> set (returned cs (reportError t apiKey keys))"
    if "list_all (within_cooldown t apiKey) cs"
    using cooling_reportError[OF dist] that by (rule cooling_returned)
  have c3: "getKeyForUser now userId (reportError t apiKey keys) = (None, reportError t apiKey keys)"
    if a: "now - t \<le> KEY_ERROR_COOLDOWN \<and> (\<forall>(k, s) \<in> set (pre @ post).
               \<not> claimable now s \<and> \<not> (user s = Some userId \<and> status s = in_use))"
  proof -
    from a have "\<not> claimable now ?st" by (simp add: claimable_def)
    with a have "\<forall>(k, s) \<in> set ?keys. \<not> claimable now s" by auto
    then have "find_available now ?keys = None"
      by (simp only: find_available_None_iff)
    moreover from a have "holders userId ?keys = []"
      by (auto simp: holders_empty_iff)
    then have "refresh_active now userId ?keys = None"
      by (simp only: refresh_active_None_iff)
    ultimately show ?thesis unfolding rep by (simp add: getKeyForUser_def)
  qed
  have c4: "claimable now s \<longleftrightarrow> now - t > KEY_ERROR_COOLDOWN"
    if "map_of (reportError t apiKey keys) apiKey = Some s" for s
  proof -
    from notin(1) have "map_of pre apiKey = None"
      by (simp add: map_of_eq_None_iff)
    with that have "s = ?st"
      unfolding rep by (simp add: map_add_def)
    then show ?thesis by (simp add: claimable_def)
  qed
  have c5: "getKeyForUser now userId (reportError t apiKey keys)
               = (Some apiKey,
                  pre @ (apiKey, st\<lparr>status := in_use, user := Some userId,
                                      lastUsed := now, errorSince := 0\<rparr>) # post)"
    if a: "now - t > KEY_ERROR_COOLDOWN
         \<and> (\<forall>(k, s) \<in> set pre. \<not> claimable now s)
         \<and> (\<forall>(k, s) \<in> set (pre @ post). \<not> (user s = Some userId \<and> status s = in_use))"
  proof -
    from a have h: "holders userId ?keys = []"
      by (auto simp: holders_empty_iff)
    from a have p: "\<forall>(k, s) \<in> set pre. \<not> claimable now s" by simp
    from a have s: "claimable now ?st" by (simp add: claimable_def)
    from getKeyForUser_assigns_first[OF wf' h p s] show ?thesis
      unfolding rep by simp
  qed
  from c1 c2 c3 c4 c5 show ?thesis by blast
qed


theorem faulty_key_cooldown_witness:
  "Some ''key-1'' \<notin> set (returned [Acquire 2000 ''caller-b'', Acquire 302000 ''caller-c'']
      (reportError 2000 ''key-1''
        [(''key-1'', \<lparr>status = in_use, user = Some ''caller-a'', lastUsed = 1000, errorSince = 0\<rparr>)]))
   \<and> getKeyForUser 302000 ''caller-b''
      (reportError 2000 ''key-1''
        [(''key-1'', \<lparr>status = in_use, user = Some ''caller-a'', lastUsed = 1000, errorSince = 0\<rparr>)])
     = (None,
        [(''key-1'', \<lparr>status = error, user = None, lastUsed = 1000, errorSince = 2000\<rparr>)])
   \<and> getKeyForUser 302001 ''caller-b''
      (reportError 2000 ''key-1''
        [(''key-1'', \<lparr>status = in_use, user = Some ''caller-a'', lastUsed = 1000, errorSince = 0\<rparr>)])
     = (Some ''key-1'',
        [(''key-1'', \<lparr>status = in_use, user = Some ''caller-b'', lastUsed = 302001, errorSince = 0\<rparr>)])"
proof -
  let ?s = "\<lparr>status = in_use, user = Some ''caller-a'', lastUsed = 1000, errorSince = 0\<rparr>"
  let ?P = "[(''key-1'', ?s)]"
  have wf: "wf_pool ?P" by (simp add: wf_pool_def)
  have d: "?P = [] @ (''key-1'', ?s) # []" by simp
  have r: "reportError 2000 ''key-1'' ?P =
      [(''key-1'', \<lparr>status = error, user = None, lastUsed = 1000, errorSince = 2000\<rparr>)]"
    by (simp add: reportError_def has_def)
  have cs: "list_all (within_cooldown 2000 ''key-1'')
      [Acquire 2000 ''caller-b'', Acquire 302000 ''caller-c'']"
    by (simp add: KEY_ERROR_COOLDOWN_def)
  note A = faulty_key_cooldown[OF wf d,
      of 2000 "[Acquire 2000 ''caller-b'', Acquire 302000 ''caller-c'']" 302000 "''caller-b''"]
  note B = faulty_key_cooldown[OF wf d, of 2000 "[]" 302001 "''caller-b''"]
  have "Some ''key-1'' \<notin> set (returned [Acquire 2000 ''caller-b'', Acquire 302000 ''caller-c'']
      (reportError 2000 ''key-1'' ?P))"
    using A[THEN conjunct2, THEN conjunct1] cs by blast
  moreover have "getKeyForUser 302000 ''caller-b'' (reportError 2000 ''key-1'' ?P)
      = (None, reportError 2000 ''key-1'' ?P)"
    using A[THEN conjunct2, THEN conjunct2, THEN conjunct1]
    by (simp add: KEY_ERROR_COOLDOWN_def)
  moreover have "getKeyForUser 302001 ''caller-b'' (reportError 2000 ''key-1'' ?P)
      = (Some ''key-1'', [(''key-1'', ?s\<lparr>status := in_use, user := Some ''caller-b'',
                                       lastUsed := 302001, errorSince := 0\<rparr>)])"
    using B[THEN conjunct2, THEN conjunct2, THEN conjunct2, THEN conjunct2]
    by (simp add: KEY_ERROR_COOLDOWN_def)
  ultimately show ?thesis by (simp add: r)
qed


subsection \<open>Status transitions\<close>

lemma run_append: "run (xs @ ys) keys = run ys (run xs keys)"
  by (induction xs arbitrary: keys) simp_all

lemma run_keys [simp]: "map fst (run cs keys) = map fst keys"
proof (induction cs arbitrary: keys)
  case Nil
  then show ?case by simp
next
  case (Cons c cs)
  then show ?case by (cases c) simp_all
qed

lemma status_of_None_iff: "status_of keys k = None \<longleftrightarrow> k \<notin> set (map fst keys)"
  by (simp add: status_of_def map_of_eq_None_iff)

lemma status_of_update_key:
  "status_of (update_key k' f keys) k =
     (if k = k' then map_option (\<lambda>s. status (f s)) (map_of keys k) else status_of keys k)"
  by (auto simp: status_of_def map_of_update_key split: option.splits)

lemma status_of_reportError:
  "status_of (reportError now a keys) k =
     (if k = a \<and> has keys a then Some error else status_of keys k)"
proof (cases "map_of keys a")
  case None
  then show ?thesis by (simp add: reportError_def has_map_of)
next
  case (Some s)
  then show ?thesis by (simp add: reportError_def has_map_of status_of_update_key)
qed

lemma status_of_getKeyForUser:
  "status_of (snd (getKeyForUser now userId keys)) k = status_of keys k
     \<or> status_of (snd (getKeyForUser now userId keys)) k = Some in_use"
proof (cases "refresh_active now userId keys")
  case (Some r)
  then obtain k1 keys' where r: "refresh_active now userId keys = Some (k1, keys')"
    by (cases r) simp
  from refresh_active_Some[OF r] obtain pre st post where
    "keys = pre @ (k1, st) # post" "keys' = pre @ (k1, st\<lparr>lastUsed := now\<rparr>) # post"
    by blast
  then have "status_of keys' k = status_of keys k"
    by (simp add: status_of_def map_add_def split: option.splits)
  with r show ?thesis by (simp add: getKeyForUser_def)
next
  case None
  note none = None
  show ?thesis
  proof (cases "find_available now keys")
    case None
    with none show ?thesis by (simp add: getKeyForUser_def)
  next
    case (Some k1)
    let ?f = "\<lambda>state. state\<lparr>status := in_use, user := Some userId,
                               lastUsed := now, errorSince := 0\<rparr>"
    have "status_of (update_key k1 ?f keys) k = status_of keys k
            \<or> status_of (update_key k1 ?f keys) k = Some in_use"
    proof (cases "map_of keys k")
      case None
      then have "status_of keys k = None" by (simp add: status_of_def)
      with None show ?thesis by (auto simp: status_of_update_key)
    next
      case (Some s)
      then show ?thesis by (auto simp: status_of_update_key)
    qed
    with none Some show ?thesis by (simp add: getKeyForUser_def)
  qed
qed

lemma status_of_returned_key:
  assumes "distinct (map fst keys)" and "fst (getKeyForUser now userId keys) = Some k"
  shows "status_of (snd (getKeyForUser now userId keys)) k = Some in_use"
proof (cases "refresh_active now userId keys")
  case (Some r)
  then obtain k1 keys' where r: "refresh_active now userId keys = Some (k1, keys')"
    by (cases r) simp
  from refresh_active_Some[OF r] obtain pre st post where
    d: "keys = pre @ (k1, st) # post" "status st = in_use"
       "keys' = pre @ (k1, st\<lparr>lastUsed := now\<rparr>) # post"
    by blast
  from assms(1) d(1) have "map_of pre k1 = None"
    by (auto simp: map_of_eq_None_iff)
  with d have "status_of keys' k1 = Some in_use"
    by (simp add: status_of_def map_add_def)
  with r assms(2) show ?thesis by (simp add: getKeyForUser_def)
next
  case None
  note none = None
  show ?thesis
  proof (cases "find_available now keys")
    case None
    with none assms(2) show ?thesis by (simp add: getKeyForUser_def)
  next
    case (Some k1)
    from find_available_in_pool[OF Some] have "map_of keys k1 \<noteq> None"
      by (auto simp: map_of_eq_None_iff intro: rev_image_eqI)
    with none Some assms(2) show ?thesis
      by (auto simp: getKeyForUser_def status_of_update_key split: if_splits)
  qed
qed

lemma handed_out_apply_op:
  assumes dist: "distinct (map fst keys)"
    and given: "\<forall>k \<in> set given. status_of keys k \<noteq> Some available"
    and follow: "reports_follow_acquire given (c # cs) keys"
  shows "\<exists>given'. (\<forall>k \<in> set given'. status_of (snd (apply_op c keys)) k \<noteq> Some available)
           \<and> reports_follow_acquire given' cs (snd (apply_op c keys))"
proof (cases c)
  case (Acquire now userId)
  let ?r = "getKeyForUser now userId keys"
  let ?given = "case fst ?r of None \<Rightarrow> given | Some k \<Rightarrow> k # given"
  have old: "status_of (snd ?r) k \<noteq> Some available" if "k \<in> set given" for k
    using status_of_getKeyForUser[of now userId keys k] given that by auto
  have "status_of (snd ?r) k \<noteq> Some available" if "k \<in> set ?given" for k
  proof (cases "fst ?r")
    case None
    with that old show ?thesis by simp
  next
    case (Some k1)
    from status_of_returned_key[OF dist Some] that Some old show ?thesis by auto
  qed
  moreover from follow Acquire have "reports_follow_acquire ?given cs (snd ?r)" by simp
  ultimately show ?thesis using Acquire by auto
next
  case (ReportError now a)
  from given have "\<forall>k \<in> set given. status_of (reportError now a keys) k \<noteq> Some available"
    by (simp add: status_of_reportError)
  with follow ReportError show ?thesis by auto
qed

lemma no_direct_fault_step:
  assumes given: "\<forall>k \<in> set given. status_of keys k \<noteq> Some available"
    and follow: "reports_follow_acquire given (c # cs) keys"
  shows "\<not> (status_of keys k = Some available \<and> status_of (snd (apply_op c keys)) k = Some error)"
proof (cases c)
  case (Acquire now userId)
  with status_of_getKeyForUser[of now userId keys k] show ?thesis by auto
next
  case (ReportError now a)
  with follow have "a \<in> set given" by simp
  with given have "status_of keys a \<noteq> Some available" by simp
  with ReportError show ?thesis by (auto simp: status_of_reportError split: if_splits)
qed

lemma handed_out_run:
  assumes "distinct (map fst keys)"
    and "\<forall>k \<in> set given. status_of keys k \<noteq> Some available"
    and "reports_follow_acquire given (xs @ ys) keys"
  shows "\<exists>given'. (\<forall>k \<in> set given'. status_of (run xs keys) k \<noteq> Some available)
           \<and> reports_follow_acquire given' ys (run xs keys)"
  using assms
proof (induction xs arbitrary: given keys)
  case Nil
  then show ?case by auto
next
  case (Cons c xs)
  from Cons.prems(3) have "reports_follow_acquire given (c # (xs @ ys)) keys" by simp
  from handed_out_apply_op[OF Cons.prems(1,2) this] obtain given1 where
    g1: "\<forall>k \<in> set given1. status_of (snd (apply_op c keys)) k \<noteq> Some available"
        "reports_follow_acquire given1 (xs @ ys) (snd (apply_op c keys))"
    by blast
  have "distinct (map fst (snd (apply_op c keys)))"
    using Cons.prems(1) by (cases c) simp_all
  from Cons.IH[OF this g1] show ?case by simp
qed


lemma reports_follow_acquire_prefix:
  "reports_follow_acquire given (xs @ ys) keys \<Longrightarrow> reports_follow_acquire given xs keys"
proof (induction xs arbitrary: given keys)
  case Nil
  then show ?case by simp
next
  case (Cons c xs)
  then show ?case by (cases c) auto
qed

lemma fault_preceded_by_use:
  assumes "distinct (map fst keys)"
    and "\<forall>k \<in> set given. status_of keys k \<noteq> Some available"
    and "reports_follow_acquire given cs keys"
    and "status_of (run cs keys) k = Some error"
  shows "status_of keys k = Some error
           \<or> (\<exists>n \<le> length cs. status_of (run (take n cs) keys) k = Some in_use)"
  using assms
proof (induction cs arbitrary: given keys)
  case Nil
  then show ?case by simp
next
  case (Cons c cs)
  let ?keys1 = "snd (apply_op c keys)"
  from handed_out_apply_op[OF Cons.prems(1,2,3)] obtain given1 where
    g1: "\<forall>k \<in> set given1. status_of ?keys1 k \<noteq> Some available"
        "reports_follow_acquire given1 cs ?keys1"
    by blast
  have dist1: "distinct (map fst ?keys1)"
    using Cons.prems(1) by (cases c) simp_all
  have keys1: "map fst ?keys1 = map fst keys"
    by (cases c) simp_all
  from Cons.prems(4) have "status_of (run cs ?keys1) k = Some error" by simp
  from Cons.IH[OF dist1 g1 this]
  consider (now) "status_of ?keys1 k = Some error"
    | (later) n where "n \<le> length cs" "status_of (run (take n cs) ?keys1) k = Some in_use"
    by blast
  then show ?case
  proof cases
    case later
    then have "Suc n \<le> length (c # cs)"
      "status_of (run (take (Suc n) (c # cs)) keys) k = Some in_use" by simp_all
    then show ?thesis by blast
  next
    case now
    show ?thesis
    proof (cases "status_of keys k")
      case None
      then have "status_of ?keys1 k = None"
        by (metis keys1 status_of_None_iff)
      with now show ?thesis by simp
    next
      case (Some st)
      show ?thesis
      proof (cases st)
        case available
        with Some now no_direct_fault_step[OF Cons.prems(2,3), of k]
        show ?thesis by simp
      next
        case in_use
        with Some have "status_of (run (take 0 (c # cs)) keys) k = Some in_use" by simp
        then show ?thesis by blast
      next
        case error
        with Some show ?thesis by simp
      qed
    qed
  qed
qed

text \<open>
  C6, as the code has it. \<^verbatim>\<open>reportError\<close> sets the status to \<^verbatim>\<open>'error'\<close> whatever it
  was, so the pool alone does not exclude a step from \<^verbatim>\<open>'available'\<close> to
  \<^verbatim>\<open>'error'\<close>. In every sequence of calls from the loaded pool in which
  \<^verbatim>\<open>reportError\<close> is only called with a key that an earlier \<^verbatim>\<open>getKeyForUser\<close>
  returned (as the request handler does), no call takes the status of a key from
  \<^verbatim>\<open>'available'\<close> to \<^verbatim>\<open>'error'\<close>, and whenever a key has status \<^verbatim>\<open>'error'\<close> it had
  status \<^verbatim>\<open>'in_use'\<close> at an earlier point of the sequence.
\<close>

theorem fault_only_after_use:
  assumes "reports_follow_acquire [] cs (loadKeys json_keys)"
  shows "(\<forall>n < length cs.
            \<not> (status_of (run (take n cs) (loadKeys json_keys)) k = Some available
               \<and> status_of (run (take (Suc n) cs) (loadKeys json_keys)) k = Some error))
    \<and> (\<forall>m \<le> length cs.
          status_of (run (take m cs) (loadKeys json_keys)) k = Some error
          \<longrightarrow> (\<exists>n \<le> m. status_of (run (take n cs) (loadKeys json_keys)) k = Some in_use))"
proof (intro conjI allI impI)
  let ?init = "loadKeys json_keys"
  have dist: "distinct (map fst ?init)"
    using loadKeys_wf[of json_keys] by (simp add: wf_pool_def)
  have given: "\<forall>k \<in> set []. status_of ?init k \<noteq> Some available" by simp
  {
    fix n assume n: "n < length cs"
    then have cs: "cs = take n cs @ (cs ! n) # drop (Suc n) cs"
      by (simp add: id_take_nth_drop)
    with assms have "reports_follow_acquire [] (take n cs @ (cs ! n) # drop (Suc n) cs) ?init"
      by simp
    from handed_out_run[OF dist given this] obtain given' where
      g: "\<forall>k \<in> set given'. status_of (run (take n cs) ?init) k \<noteq> Some available"
         "reports_follow_acquire given' ((cs ! n) # drop (Suc n) cs) (run (take n cs) ?init)"
      by blast
    from n have "run (take (Suc n) cs) ?init = snd (apply_op (cs ! n) (run (take n cs) ?init))"
      by (simp add: take_Suc_conv_app_nth run_append)
    with no_direct_fault_step[OF g, of k]
    show "\<not> (status_of (run (take n cs) ?init) k = Some available
             \<and> status_of (run (take (Suc n) cs) ?init) k = Some error)"
      by simp
  }
  {
    fix m assume m: "m \<le> length cs"
      and err: "status_of (run (take m cs) ?init) k = Some error"
    from assms have "reports_follow_acquire [] (take m cs @ drop m cs) ?init" by simp
    then have f: "reports_follow_acquire [] (take m cs) ?init"
      by (rule reports_follow_acquire_prefix)
    have "status_of ?init k \<noteq> Some error"
      by (auto simp: status_of_def initial_state_def dest!: map_of_SomeD loadKeys_initial)
    with fault_preceded_by_use[OF dist given f err] obtain n where
      "n \<le> length (take m cs)" "status_of (run (take n (take m cs)) ?init) k = Some in_use"
      by blast
    with m have "n \<le> m" "status_of (run (take n cs) ?init) k = Some in_use"
      by (simp_all add: min_absorb1)
    then show "\<exists>n \<le> m. status_of (run (take n cs) ?init) k = Some in_use" by blast
  }
qed

theorem fault_only_after_use_witness:
  "reports_follow_acquire [] [Acquire 1000 ''caller-a'', ReportError 2000 ''key-1'']
      (loadKeys [''key-1''])
   \<and> status_of (run [Acquire 1000 ''caller-a'', ReportError 2000 ''key-1''] (loadKeys [''key-1'']))
        ''key-1'' = Some error
   \<and> (\<exists>n \<le> 2. status_of (run (take n [Acquire 1000 ''caller-a'', ReportError 2000 ''key-1''])
        (loadKeys [''key-1''])) ''key-1'' = Some in_use)"
proof -
  let ?cs = "[Acquire 1000 ''caller-a'', ReportError 2000 ''key-1'']"
  let ?init = "loadKeys [''key-1'']"
  have acq: "getKeyForUser 1000 ''caller-a'' ?init =
      (Some ''key-1'',
       [(''key-1'', \<lparr>status = in_use, user = Some ''caller-a'', lastUsed = 1000, errorSince = 0\<rparr>)])"
    by (simp add: getKeyForUser_def loadKeys_def has_def initial_state_def claimable_def)
  have follow: "reports_follow_acquire [] ?cs ?init"
    by (simp add: acq)
  have err: "status_of (run ?cs ?init) ''key-1'' = Some error"
    by (simp add: acq reportError_def has_def status_of_def)
  from fault_only_after_use[OF follow, of "''key-1''"] err
  have "\<exists>n \<le> 2. status_of (run (take n ?cs) ?init) ''key-1'' = Some in_use"
    by simp
  with follow err show ?thesis by simp
qed

text \<open>
  The claim as the specification states it, over any sequence of calls on the pool,
  fails: \<^verbatim>\<open>reportError\<close> on a freshly loaded key takes it from \<^verbatim>\<open>'available'\<close>
  straight to \<^verbatim>\<open>'error'\<close>.
\<close>

theorem direct_fault_counterexample:
  "status_of (run [] (loadKeys [''key-1''])) ''key-1'' = Some available
   \<and> status_of (run [ReportError 1000 ''key-1''] (loadKeys [''key-1''])) ''key-1'' = Some error"
  by (simp add: loadKeys_def has_def initial_state_def reportError_def status_of_def)


section \<open>Properties of the session guard\<close>

lemma findAndValidateKey_Some:
  "findAndValidateKey compare key keys = Some old \<Longrightarrow>
     \<exists>pre post. keys = pre @ old # post
        \<and> (\<forall>x \<in> set pre. \<not> compare key (keyHash x)) \<and> compare key (keyHash old)"
proof (induction keys)
  case Nil
  then show ?case by simp
next
  case (Cons x keys)
  show ?case
  proof (cases "compare key (keyHash x)")
    case True
    with Cons.prems have "x = old" by simp
    with True show ?thesis by (intro exI[of _ "[]"] exI[of _ keys]) simp
  next
    case False
    with Cons.prems have "findAndValidateKey compare key keys = Some old" by simp
    from Cons.IH[OF this] obtain pre post where
      "keys = pre @ old # post" "\<forall>x \<in> set pre. \<not> compare key (keyHash x)"
      "compare key (keyHash old)" by blast
    with False show ?thesis by (intro exI[of _ "x # pre"] exI[of _ post]) simp
  qed
qed

lemma findAndValidateKey_first:
  "\<forall>x \<in> set pre. \<not> compare key (keyHash x) \<Longrightarrow> compare key (keyHash r) \<Longrightarrow>
     findAndValidateKey compare key (pre @ r # post) = Some r"
  by (induction pre) simp_all

lemma incrementKeyUsage_first:
  "\<forall>x \<in> set pre. keyHash x \<noteq> keyHash old \<Longrightarrow>
     incrementKeyUsage write_ok now (keyHash old) ip userAgent (pre @ old # post)
       = (if write_ok then Fulfilled (Some (used now ip userAgent old)) else Thrown,
          pre @ used now ip userAgent old # post)"
  by (induction pre) (simp_all add: used_def Let_def)

lemma past_the_checks:
  assumes "userAuthMiddleware compare write_ok t_expiry t_lock t_usage req st = (resp, st')"
    and "resp \<notin> {Access_key_required, Invalid_access_key, Access_key_expired, Another_device}"
  shows "\<exists>key pre old post.
           js_or (body_key req) (access_key_header req) = JString key \<and> key \<noteq> []
         \<and> db_keys st = pre @ old # post
         \<and> (\<forall>x \<in> set pre. \<not> compare key (keyHash x)) \<and> compare key (keyHash old)
         \<and> (resp, st') =
             (if write_ok
              then (Next (used t_usage (req_ip req) (user_agent req) old),
                    \<lparr>db_keys = pre @ used t_usage (req_ip req) (user_agent req) old # post,
                     appCache = (appCache st)
                        (key \<mapsto> used t_usage (req_ip req) (user_agent req) old)\<rparr>)
              else (Internal_server_error,
                    st\<lparr>db_keys := pre @ used t_usage (req_ip req) (user_agent req) old # post\<rparr>))"
proof -
  from assms obtain key where key: "js_or (body_key req) (access_key_header req) = JString key"
    "key \<noteq> []"
    by (auto simp: userAuthMiddleware_def split: jsval.splits if_splits)
  with assms obtain old where old: "findAndValidateKey compare key (db_keys st) = Some old"
    by (auto simp: userAuthMiddleware_def split: option.splits)
  from findAndValidateKey_Some[OF old] obtain pre post where
    d: "db_keys st = pre @ old # post" "\<forall>x \<in> set pre. \<not> compare key (keyHash x)"
       "compare key (keyHash old)" by blast
  then have "\<forall>x \<in> set pre. keyHash x \<noteq> keyHash old" by auto
  then have inc: "incrementKeyUsage write_ok t_usage (keyHash old) (req_ip req) (user_agent req)
        (db_keys st)
      = (if write_ok then Fulfilled (Some (used t_usage (req_ip req) (user_agent req) old))
         else Thrown,
         pre @ used t_usage (req_ip req) (user_agent req) old # post)"
    unfolding d(1) by (rule incrementKeyUsage_first)
  from assms key old inc have
    "(resp, st') =
       (if write_ok
        then (Next (used t_usage (req_ip req) (user_agent req) old),
              \<lparr>db_keys = pre @ used t_usage (req_ip req) (user_agent req) old # post,
               appCache = (appCache st)
                  (key \<mapsto> used t_usage (req_ip req) (user_agent req) old)\<rparr>)
        else (Internal_server_error,
              st\<lparr>db_keys := pre @ used t_usage (req_ip req) (user_agent req) old # post\<rparr>))"
    by (auto simp: userAuthMiddleware_def Let_def split: if_splits)
  with key d show ?thesis by blast
qed

lemma allowed_shape:
  assumes "userAuthMiddleware compare write_ok t_expiry t_lock t_usage req st = (Next r, st')"
  shows "\<exists>key pre old post.
           js_or (body_key req) (access_key_header req) = JString key \<and> key \<noteq> []
         \<and> db_keys st = pre @ old # post
         \<and> (\<forall>x \<in> set pre. \<not> compare key (keyHash x)) \<and> compare key (keyHash old)
         \<and> r = used t_usage (req_ip req) (user_agent req) old
         \<and> st' = \<lparr>db_keys = pre @ r # post, appCache = (appCache st)(key \<mapsto> r)\<rparr>
         \<and> write_ok"
proof -
  have "Next r \<notin> {Access_key_required, Invalid_access_key, Access_key_expired, Another_device}"
    by simp
  from past_the_checks[OF assms this] obtain key pre old post where
    s: "js_or (body_key req) (access_key_header req) = JString key" "key \<noteq> []"
       "db_keys st = pre @ old # post"
       "\<forall>x \<in> set pre. \<not> compare key (keyHash x)" "compare key (keyHash old)"
    and e: "(Next r, st') =
             (if write_ok
              then (Next (used t_usage (req_ip req) (user_agent req) old),
                    \<lparr>db_keys = pre @ used t_usage (req_ip req) (user_agent req) old # post,
                     appCache = (appCache st)
                        (key \<mapsto> used t_usage (req_ip req) (user_agent req) old)\<rparr>)
              else (Internal_server_error,
                    st\<lparr>db_keys := pre @ used t_usage (req_ip req) (user_agent req) old # post\<rparr>))"
    by blast
  from e have "write_ok" "r = used t_usage (req_ip req) (user_agent req) old"
    "st' = \<lparr>db_keys = pre @ r # post, appCache = (appCache st)(key \<mapsto> r)\<rparr>"
    by (auto split: if_splits)
  with s show ?thesis by blast
qed

subsection \<open>Expired keys\<close>

text \<open>
  C4. For a presented key that \<^verbatim>\<open>findAndValidateKey\<close> resolves to a record whose
  \<^verbatim>\<open>expirationDate\<close> is strictly before the clock reading of the expiry test, the
  middleware answers 401 "Access key has expired", whatever the request's ip and
  user agent, the record's \<^verbatim>\<open>lastUsedTime\<close> and fingerprint, and the later clock
  readings are; nothing is written.
\<close>

theorem expired_key_rejected:
  assumes "js_or (body_key req) (access_key_header req) = JString key" and "key \<noteq> []"
    and "findAndValidateKey compare key (db_keys st) = Some keyData"
    and "expirationDate keyData < t_expiry"
  shows "userAuthMiddleware compare write_ok t_expiry t_lock t_usage req st
           = (Access_key_expired, st)"
  using assms by (simp add: userAuthMiddleware_def)

theorem expired_key_rejected_witness:
  "userAuthMiddleware (\<lambda>key hash. hash = ''h-'' @ key) True 5001 5002 5003
     \<lparr>body_key = JString ''sk-1'', access_key_header = JUndefined,
      req_ip = JString ''10.0.0.1'', user_agent = JString ''ua-1''\<rparr>
     \<lparr>db_keys = [\<lparr>name = ''n'', keyHash = ''h-sk-1'', creationDate = 0, expirationDate = 5000,
                  requestCount = 3, lastUsedIp = JString ''10.0.0.1'', lastUsedTime = Some 4990,
                  lastUsedUserAgent = JString ''ua-1''\<rparr>],
      appCache = Map.empty\<rparr>
   = (Access_key_expired,
     \<lparr>db_keys = [\<lparr>name = ''n'', keyHash = ''h-sk-1'', creationDate = 0, expirationDate = 5000,
                  requestCount = 3, lastUsedIp = JString ''10.0.0.1'', lastUsedTime = Some 4990,
                  lastUsedUserAgent = JString ''ua-1''\<rparr>],
      appCache = Map.empty\<rparr>)"
proof -
  let ?cmp = "\<lambda>key hash. hash = ''h-'' @ key"
  let ?req = "\<lparr>body_key = JString ''sk-1'', access_key_header = JUndefined,
      req_ip = JString ''10.0.0.1'', user_agent = JString ''ua-1''\<rparr>"
  let ?kd = "\<lparr>name = ''n'', keyHash = ''h-sk-1'', creationDate = 0, expirationDate = 5000,
                  requestCount = 3, lastUsedIp = JString ''10.0.0.1'', lastUsedTime = Some 4990,
                  lastUsedUserAgent = JString ''ua-1''\<rparr>"
  let ?st = "\<lparr>db_keys = [?kd], appCache = Map.empty\<rparr>"
  have h1: "js_or (body_key ?req) (access_key_header ?req) = JString ''sk-1''"
    by (simp add: js_or_def)
  have h2: "''sk-1'' \<noteq> []" by simp
  have h3: "findAndValidateKey ?cmp ''sk-1'' (db_keys ?st) = Some ?kd" by simp
  have h4: "expirationDate ?kd < 5001" by simp
  show ?thesis by (rule expired_key_rejected[OF h1 h2 h3 h4])
qed

subsection \<open>One device at a time\<close>

text \<open>
  C3. Let a call of the middleware be let through (\<^verbatim>\<open>next()\<close>), its usage recorded
  at clock reading \<open>a_usage\<close>. A second call with the same key that is not expired,
  whose lock test reads the clock less than \<open>LOCK_DURATION\<close> (30 seconds) after
  \<open>a_usage\<close>, and whose ip or user agent differs from the first call's, is answered
  429 "Another device is already logged in"; it writes nothing.
\<close>

theorem second_device_rejected:
  assumes "userAuthMiddleware compare a_write a_expiry a_lock a_usage req1 st = (Next r1, st1)"
    and "js_or (body_key req2) (access_key_header req2)
           = js_or (body_key req1) (access_key_header req1)"
    and "\<not> b_expiry > expirationDate r1"
    and "b_lock - a_usage < LOCK_DURATION"
    and "req_ip req2 \<noteq> req_ip req1 \<or> user_agent req2 \<noteq> user_agent req1"
  shows "LOCK_DURATION = 30000
    \<and> userAuthMiddleware compare b_write b_expiry b_lock b_usage req2 st1
        = (Another_device, st1)"
proof -
  from allowed_shape[OF assms(1)] obtain key pre old post where
    key: "js_or (body_key req1) (access_key_header req1) = JString key" "key \<noteq> []"
    and d: "\<forall>x \<in> set pre. \<not> compare key (keyHash x)" "compare key (keyHash old)"
    and r1: "r1 = used a_usage (req_ip req1) (user_agent req1) old"
    and st1: "st1 = \<lparr>db_keys = pre @ r1 # post, appCache = (appCache st)(key \<mapsto> r1)\<rparr>"
    by blast
  from r1 d(2) have "compare key (keyHash r1)" by (simp add: used_def)
  with d(1) have f: "findAndValidateKey compare key (db_keys st1) = Some r1"
    unfolding st1 by (simp add: findAndValidateKey_first)
  from r1 have u: "lastUsedTime r1 = Some a_usage" "lastUsedIp r1 = req_ip req1"
    "lastUsedUserAgent r1 = user_agent req1"
    by (simp_all add: used_def)
  from assms(2) key have key2: "js_or (body_key req2) (access_key_header req2) = JString key"
    by simp
  have "userAuthMiddleware compare b_write b_expiry b_lock b_usage req2 st1
          = (Another_device, st1)"
    using key2 key(2) f u assms(3,4,5) by (auto simp: userAuthMiddleware_def)
  then show ?thesis by (simp add: LOCK_DURATION_def)
qed

theorem second_device_rejected_witness:
  "userAuthMiddleware (\<lambda>key hash. hash = ''h-'' @ key) True 1000 1001 1002
     \<lparr>body_key = JString ''sk-1'', access_key_header = JUndefined,
      req_ip = JString ''10.0.0.1'', user_agent = JString ''ua-1''\<rparr>
     \<lparr>db_keys = [\<lparr>name = ''n'', keyHash = ''h-sk-1'', creationDate = 0, expirationDate = 90000,
                  requestCount = 0, lastUsedIp = JNull, lastUsedTime = None,
                  lastUsedUserAgent = JNull\<rparr>],
      appCache = Map.empty\<rparr>
   = (Next \<lparr>name = ''n'', keyHash = ''h-sk-1'', creationDate = 0, expirationDate = 90000,
             requestCount = 1, lastUsedIp = JString ''10.0.0.1'', lastUsedTime = Some 1002,
             lastUsedUserAgent = JString ''ua-1''\<rparr>,
      \<lparr>db_keys = [\<lparr>name = ''n'', keyHash = ''h-sk-1'', creationDate = 0, expirationDate = 90000,
                  requestCount = 1, lastUsedIp = JString ''10.0.0.1'', lastUsedTime = Some 1002,
                  lastUsedUserAgent = JString ''ua-1''\<rparr>],
       appCache = [''sk-1'' \<mapsto>
                 \<lparr>name = ''n'', keyHash = ''h-sk-1'', creationDate = 0, expirationDate = 90000,
                  requestCount = 1, lastUsedIp = JString ''10.0.0.1'', lastUsedTime = Some 1002,
                  lastUsedUserAgent = JString ''ua-1''\<rparr>]\<rparr>)
   \<and> userAuthMiddleware (\<lambda>key hash. hash = ''h-'' @ key) True 31000 31001 31003
     \<lparr>body_key = JNull, access_key_header = JString ''sk-1'',
      req_ip = JString ''10.0.0.1'', user_agent = JString ''ua-2''\<rparr>
     \<lparr>db_keys = [\<lparr>name = ''n'', keyHash = ''h-sk-1'', creationDate = 0, expirationDate = 90000,
                  requestCount = 1, lastUsedIp = JString ''10.0.0.1'', lastUsedTime = Some 1002,
                  lastUsedUserAgent = JString ''ua-1''\<rparr>],
       appCache = [''sk-1'' \<mapsto>
                 \<lparr>name = ''n'', keyHash = ''h-sk-1'', creationDate = 0, expirationDate = 90000,
                  requestCount = 1, lastUsedIp = JString ''10.0.0.1'', lastUsedTime = Some 1002,
                  lastUsedUserAgent = JString ''ua-1''\<rparr>]\<rparr>
   = (Another_device,
      \<lparr>db_keys = [\<lparr>name = ''n'', keyHash = ''h-sk-1'', creationDate = 0, expirationDate = 90000,
                  requestCount = 1, lastUsedIp = JString ''10.0.0.1'', lastUsedTime = Some 1002,
                  lastUsedUserAgent = JString ''ua-1''\<rparr>],
       appCache = [''sk-1'' \<mapsto>
                 \<lparr>name = ''n'', keyHash = ''h-sk-1'', creationDate = 0, expirationDate = 90000,
                  requestCount = 1, lastUsedIp = JString ''10.0.0.1'', lastUsedTime = Some 1002,
                  lastUsedUserAgent = JString ''ua-1''\<rparr>]\<rparr>)"
proof -
  let ?cmp = "\<lambda>key hash. hash = ''h-'' @ key"
  let ?req1 = "\<lparr>body_key = JString ''sk-1'', access_key_header = JUndefined,
      req_ip = JString ''10.0.0.1'', user_agent = JString ''ua-1''\<rparr>"
  let ?req2 = "\<lparr>body_key = JNull, access_key_header = JString ''sk-1'',
      req_ip = JString ''10.0.0.1'', user_agent = JString ''ua-2''\<rparr>"
  let ?old = "\<lparr>name = ''n'', keyHash = ''h-sk-1'', creationDate = 0, expirationDate = 90000,
                  requestCount = 0, lastUsedIp = JNull, lastUsedTime = None,
                  lastUsedUserAgent = JNull\<rparr>"
  let ?r1 = "\<lparr>name = ''n'', keyHash = ''h-sk-1'', creationDate = 0, expirationDate = 90000,
             requestCount = 1, lastUsedIp = JString ''10.0.0.1'', lastUsedTime = Some 1002,
             lastUsedUserAgent = JString ''ua-1''\<rparr>"
  let ?st = "\<lparr>db_keys = [?old], appCache = Map.empty\<rparr>"
  let ?st1 = "\<lparr>db_keys = [?r1], appCache = [''sk-1'' \<mapsto> ?r1]\<rparr>"
  have first: "userAuthMiddleware ?cmp True 1000 1001 1002 ?req1 ?st = (Next ?r1, ?st1)"
    by (simp add: userAuthMiddleware_def js_or_def js_add_one_def Let_def)
  have "userAuthMiddleware ?cmp True 31000 31001 31003 ?req2 ?st1 = (Another_device, ?st1)"
    using second_device_rejected[OF first, of ?req2 31000 31001 True 31003]
    by (simp add: js_or_def LOCK_DURATION_def)
  with first show ?thesis by simp
qed


subsection \<open>When usage is recorded\<close>






end
